theory Spec2Isabelle
  imports Main "HOL-Library.Sublist"
begin

section \<open>The mitt event emitter (src/src/index.ts)\<close>

text \<open>
  The module is one factory, \<^verbatim>\<open>mitt(all?)\<close>, that returns an object with the handler
  map \<^verbatim>\<open>all\<close> and the three closures \<^verbatim>\<open>on\<close>, \<^verbatim>\<open>off\<close> and \<^verbatim>\<open>emit\<close>
  over it.

  \<^item> \<^verbatim>\<open>EventType = string | symbol\<close> is the datatype \<open>event_type\<close>; the wildcard key
    is the string \<^verbatim>\<open>'*'\<close>, an ordinary key of the map.
  \<^item> A handler is a JavaScript function. The emitter never looks inside one: it calls
    it and compares it by reference (\<^verbatim>\<open>indexOf\<close>). A handler is therefore a reference
    \<open>Ref n\<close>, and what the function does when called is given by an environment
    \<open>env\<close>, which maps the reference, the argument list of the call and the current
    state to the outcome of the call.
  \<^item> \<^verbatim>\<open>Map<key, Array<handler>>\<close> is a map from keys to lists. The map holds the only
    reference the module keeps to each array, and \<^verbatim>\<open>emit\<close> iterates over a
    \<^verbatim>\<open>slice()\<close>, so arrays are modelled as list values; \<^verbatim>\<open>push\<close> and
    \<^verbatim>\<open>splice\<close> store the changed list back under the key.
  \<^item> The state a handler can change is the map and everything else the program owns;
    the latter is the field \<open>outside\<close>, of an arbitrary type.
  \<^item> A handler call either returns or throws; in both cases the state it leaves
    behind is part of the outcome. Handlers are assumed to terminate.
\<close>

subsection \<open>Data\<close>

datatype event_type = Str string | Sym nat

definition wildcard :: event_type where
  "wildcard = Str ''*''"

datatype handler = Ref nat

type_synonym event_handler_map = "event_type \<rightharpoonup> handler list"

record 'w emitter =
  all :: event_handler_map
  outside :: 'w

text \<open>
  The arguments of one handler call: \<^verbatim>\<open>handler(evt)\<close> for a type-matched handler,
  \<^verbatim>\<open>handler(type, evt)\<close> for a wildcard handler.
\<close>

datatype 'v arglist = Args1 'v | Args2 event_type 'v

datatype ('x, 's) outcome = Returned 's | Threw 'x 's

fun state_of :: "('x, 's) outcome \<Rightarrow> 's" where
  "state_of (Returned s) = s"
| "state_of (Threw x s) = s"

type_synonym ('v, 'x, 'w) env =
  "handler \<Rightarrow> 'v arglist \<Rightarrow> 'w emitter \<Rightarrow> ('x, 'w emitter) outcome"

type_synonym 'v call = "handler \<times> 'v arglist"

subsection \<open>Array primitives\<close>

text \<open>\<^verbatim>\<open>Array.prototype.indexOf\<close>: the first index holding the value, or -1.\<close>

fun indexOf_from :: "int \<Rightarrow> 'a list \<Rightarrow> 'a \<Rightarrow> int" where
  "indexOf_from k [] x = - 1"
| "indexOf_from k (y # ys) x = (if y = x then k else indexOf_from (k + 1) ys x)"

definition indexOf :: "'a list \<Rightarrow> 'a \<Rightarrow> int" where
  "indexOf xs x = indexOf_from 0 xs x"

text \<open>
  \<^verbatim>\<open>n >>> k\<close>: the left operand is read as an unsigned 32-bit integer, the shift
  count modulo 32.
\<close>

definition unsigned_shift_right :: "int \<Rightarrow> nat \<Rightarrow> int" where
  "unsigned_shift_right n k = (n mod 4294967296) div 2 ^ (k mod 32)"

text \<open>
  \<^verbatim>\<open>Array.prototype.splice(start, deleteCount)\<close> with no items to insert; the value
  is the array after the call. A negative start counts from the end, a start beyond
  the length is the length, and the delete count is clamped to what is left.
\<close>

definition array_splice :: "'a list \<Rightarrow> int \<Rightarrow> int \<Rightarrow> 'a list" where
  "array_splice xs start deleteCount =
     (let len = int (length xs);
          actualStart = (if start < 0 then max (len + start) 0 else min start len);
          actualDeleteCount = min (max deleteCount 0) (len - actualStart)
      in take (nat actualStart) xs @ drop (nat (actualStart + actualDeleteCount)) xs)"

text \<open>\<^verbatim>\<open>Array.prototype.slice()\<close> with no arguments: a copy of the whole array.\<close>

definition slice :: "'a list \<Rightarrow> 'a list" where
  "slice xs = xs"

subsection \<open>The factory and the three operations\<close>

text \<open>\<^verbatim>\<open>all = all || new Map()\<close>\<close>

definition mitt :: "event_handler_map option \<Rightarrow> 'w \<Rightarrow> 'w emitter" where
  "mitt seed w = \<lparr>all = (case seed of None \<Rightarrow> Map.empty | Some m \<Rightarrow> m), outside = w\<rparr>"

definition on :: "event_type \<Rightarrow> handler \<Rightarrow> 'w emitter \<Rightarrow> 'w emitter" where
  "on type h s =
     (case all s type of
        Some handlers \<Rightarrow> s\<lparr>all := (all s)(type \<mapsto> handlers @ [h])\<rparr>
      | None \<Rightarrow> s\<lparr>all := (all s)(type \<mapsto> [h])\<rparr>)"

definition off :: "event_type \<Rightarrow> handler option \<Rightarrow> 'w emitter \<Rightarrow> 'w emitter" where
  "off type ho s =
     (case all s type of
        Some handlers \<Rightarrow>
          (case ho of
             Some h \<Rightarrow>
               s\<lparr>all := (all s)(type \<mapsto>
                    array_splice handlers (unsigned_shift_right (indexOf handlers h) 0) 1)\<rparr>
           | None \<Rightarrow> s\<lparr>all := (all s)(type \<mapsto> [])\<rparr>)
      | None \<Rightarrow> s)"

text \<open>
  \<^verbatim>\<open>xs.map((handler) => { handler(a) })\<close>: the handlers of the copied array are
  called in order, each on the state the previous one left. An exception leaves the
  loop at once. The first component of the result lists the calls made.
\<close>

fun map_invoke ::
  "('v, 'x, 'w) env \<Rightarrow> handler list \<Rightarrow> 'v arglist \<Rightarrow> 'w emitter \<Rightarrow>
     'v call list \<times> ('x, 'w emitter) outcome" where
  "map_invoke env [] a s = ([], Returned s)"
| "map_invoke env (h # hs) a s =
     (case env h a s of
        Threw x s' \<Rightarrow> ([(h, a)], Threw x s')
      | Returned s' \<Rightarrow>
          (case map_invoke env hs a s' of (cs, r) \<Rightarrow> ((h, a) # cs, r)))"

text \<open>\<^verbatim>\<open>if (handlers) { handlers.slice().map(...) }\<close>\<close>

definition dispatch ::
  "('v, 'x, 'w) env \<Rightarrow> handler list option \<Rightarrow> 'v arglist \<Rightarrow> 'w emitter \<Rightarrow>
     'v call list \<times> ('x, 'w emitter) outcome" where
  "dispatch env handlers a s =
     (case handlers of
        Some hs \<Rightarrow> map_invoke env (slice hs) a s
      | None \<Rightarrow> ([], Returned s))"

definition emit ::
  "('v, 'x, 'w) env \<Rightarrow> event_type \<Rightarrow> 'v \<Rightarrow> 'w emitter \<Rightarrow>
     'v call list \<times> ('x, 'w emitter) outcome" where
  "emit env type evt s =
     (case dispatch env (all s type) (Args1 evt) s of
        (cs1, Threw x s1) \<Rightarrow> (cs1, Threw x s1)
      | (cs1, Returned s1) \<Rightarrow>
          (case dispatch env (all s1 wildcard) (Args2 type evt) s1 of
             (cs2, r) \<Rightarrow> (cs1 @ cs2, r)))"

subsection \<open>Callers\<close>

text \<open>
  The sequence stored under a key, empty when the key is absent; and the calls that
  dispatching a sequence with one argument list makes when every handler returns.
\<close>

definition handlers_of :: "'w emitter \<Rightarrow> event_type \<Rightarrow> handler list" where
  "handlers_of s k = (case all s k of None \<Rightarrow> [] | Some hs \<Rightarrow> hs)"

definition calls_with :: "'v arglist \<Rightarrow> handler list \<Rightarrow> 'v call list" where
  "calls_with a hs = map (\<lambda>h. (h, a)) hs"

text \<open>
  A caller's program is a list of calls on the emitter. A caller may catch what
  \<^verbatim>\<open>emit\<close> throws and go on, so the run continues from the state the call left.
\<close>

datatype 'v op = On event_type handler | Off event_type "handler option" | Emit event_type 'v

fun is_emit :: "'v op \<Rightarrow> bool" where
  "is_emit (Emit t v) = True"
| "is_emit _ = False"

fun exec :: "('v, 'x, 'w) env \<Rightarrow> 'v op \<Rightarrow> 'w emitter \<Rightarrow> 'w emitter" where
  "exec env (On t h) s = on t h s"
| "exec env (Off t ho) s = off t ho s"
| "exec env (Emit t v) s = state_of (snd (emit env t v s))"

fun run :: "('v, 'x, 'w) env \<Rightarrow> 'v op list \<Rightarrow> 'w emitter \<Rightarrow> 'w emitter" where
  "run env [] s = s"
| "run env (c # cs) s = run env cs (exec env c s)"

text \<open>
  What a list of calls does to the state when the calls are made one after another,
  each on the state the previous one left, up to the first call that throws. It is
  defined on the calls alone, with no reference to the registry, and serves to say
  that the handlers listed were really run.
\<close>

fun apply_calls ::
  "('v, 'x, 'w) env \<Rightarrow> 'v call list \<Rightarrow> 'w emitter \<Rightarrow> ('x, 'w emitter) outcome" where
  "apply_calls env [] s = Returned s"
| "apply_calls env (c # cs) s =
     (case env (fst c) (snd c) s of
        Threw x s' \<Rightarrow> Threw x s'
      | Returned s' \<Rightarrow> apply_calls env cs s')"

subsection \<open>Example handlers\<close>

text \<open>
  Handlers used in the examples below. \<open>Ref 0\<close> registers \<open>Ref 1\<close> under the
  wildcard key, \<open>Ref 1\<close> counts its calls in the outside state, \<open>Ref 2\<close> throws,
  \<open>Ref 3\<close> removes itself from the key \<^verbatim>\<open>'t'\<close>, \<open>Ref 4\<close> registers \<open>Ref 1\<close>
  under \<^verbatim>\<open>'t'\<close>; every other handler returns at once.
\<close>

definition example_env :: "(nat, string, nat) env" where
  "example_env h a s =
     (if h = Ref 0 then Returned (on wildcard (Ref 1) s)
      else if h = Ref 1 then Returned (s\<lparr>outside := outside s + 1\<rparr>)
      else if h = Ref 2 then Threw ''boom'' s
      else if h = Ref 3 then Returned (off (Str ''t'') (Some (Ref 3)) s)
      else if h = Ref 4 then Returned (on (Str ''t'') (Ref 1) s)
      else Returned s)"

text \<open>Handlers that only count their calls, and never touch the emitter.\<close>

definition counting_env :: "(nat, string, nat) env" where
  "counting_env h a s = Returned (s\<lparr>outside := outside s + 1\<rparr>)"

text \<open>Handlers that append their own call to a log kept outside the emitter.\<close>

definition logging_env :: "(nat, string, (handler \<times> nat arglist) list) env" where
  "logging_env h a s = Returned (s\<lparr>outside := outside s @ [(h, a)]\<rparr>)"

text \<open>
  An emitter seeded with four handlers under \<^verbatim>\<open>'t'\<close>, one of them twice, and
  one wildcard handler.
\<close>

definition example_bus :: "nat emitter" where
  "example_bus =
     mitt (Some [Str ''t'' \<mapsto> [Ref 0, Ref 1, Ref 2, Ref 1], wildcard \<mapsto> [Ref 1]]) 0"

text \<open>
  An emitter whose first handler under \<^verbatim>\<open>'t'\<close> removes itself and whose third
  registers another handler under \<^verbatim>\<open>'t'\<close>.
\<close>

definition self_removing_bus :: "nat emitter" where
  "self_removing_bus = mitt (Some [Str ''t'' \<mapsto> [Ref 3, Ref 1, Ref 4], wildcard \<mapsto> [Ref 1]]) 0"

section \<open>Properties\<close>

subsection \<open>Array primitives\<close>

lemma indexOf_from_absent: "x \<notin> set xs \<Longrightarrow> indexOf_from k xs x = - 1"
  by (induction xs arbitrary: k) auto

lemma indexOf_from_first:
  "x \<notin> set pre \<Longrightarrow> indexOf_from k (pre @ x # post) x = k + int (length pre)"
  by (induction pre arbitrary: k) auto

lemma indexOf_absent: "x \<notin> set xs \<Longrightarrow> indexOf xs x = - 1"
  by (simp add: indexOf_def indexOf_from_absent)

lemma indexOf_first: "x \<notin> set pre \<Longrightarrow> indexOf (pre @ x # post) x = int (length pre)"
  by (simp add: indexOf_def indexOf_from_first)

lemma unsigned_shift_right_minus_one: "unsigned_shift_right (- 1) 0 = 4294967295"
  by (simp add: unsigned_shift_right_def)

lemma unsigned_shift_right_index:
  "0 \<le> i \<Longrightarrow> i < 4294967296 \<Longrightarrow> unsigned_shift_right i 0 = i"
  by (simp add: unsigned_shift_right_def)

lemma splice_beyond_end:
  assumes "int (length xs) \<le> start"
  shows "array_splice xs start 1 = xs"
proof -
  have a: "\<not> start < 0" using assms by linarith
  have b: "min start (int (length xs)) = int (length xs)" using assms by simp
  show ?thesis unfolding array_splice_def Let_def using a b by simp
qed

lemma splice_one_at: "array_splice (pre @ x # post) (int (length pre)) 1 = pre @ post"
proof -
  let ?xs = "pre @ x # post"
  have a: "\<not> int (length pre) < 0" by simp
  have b: "min (int (length pre)) (int (length ?xs)) = int (length pre)" by simp
  have c: "min (max (1::int) 0) (int (length ?xs) - int (length pre)) = 1" by simp
  have d: "nat (int (length pre) + 1) = Suc (length pre)" by simp
  show ?thesis unfolding array_splice_def Let_def using a by (simp only: b c d if_False) simp
qed

lemma splice_take_drop:
  "\<exists>i j. i \<le> j \<and> array_splice xs start n = take i xs @ drop j xs"
proof -
  define len where "len = int (length xs)"
  define a where "a = (if start < 0 then max (len + start) 0 else min start len)"
  define d where "d = min (max n 0) (len - a)"
  have "0 \<le> len" by (simp add: len_def)
  then have "0 \<le> a" "a \<le> len" unfolding a_def by (simp_all split: if_splits)
  then have "0 \<le> d" unfolding d_def by linarith
  then have "nat a \<le> nat (a + d)" by linarith
  moreover have "array_splice xs start n = take (nat a) xs @ drop (nat (a + d)) xs"
    unfolding array_splice_def Let_def a_def d_def len_def ..
  ultimately show ?thesis by blast
qed

subsection \<open>The dispatch loop\<close>

text \<open>
  What the loop over a copied sequence calls, how its outcome follows from the
  calls, and what it does to any quantity of the state that the handlers change
  only along a preorder.
\<close>

lemma map_invoke_returned_calls:
  "map_invoke env hs a s = (cs, Returned s') \<Longrightarrow> cs = calls_with a hs"
  by (induction hs arbitrary: s cs) (auto simp: calls_with_def split: outcome.splits prod.splits)

lemma map_invoke_append:
  "map_invoke env (pre @ post) a s =
     (case map_invoke env pre a s of
        (cs, Threw x s1) \<Rightarrow> (cs, Threw x s1)
      | (cs, Returned s1) \<Rightarrow>
          (case map_invoke env post a s1 of (cs', r) \<Rightarrow> (cs @ cs', r)))"
  by (induction pre arbitrary: s) (auto split: outcome.splits prod.splits)

lemma map_invoke_throw_at:
  assumes "map_invoke env pre a s = (cs, Returned s1)" and "env h a s1 = Threw x s2"
  shows "map_invoke env (pre @ h # post) a s = (calls_with a (pre @ [h]), Threw x s2)"
proof -
  have "cs = calls_with a pre" using assms(1) by (rule map_invoke_returned_calls)
  then show ?thesis using assms by (simp add: map_invoke_append calls_with_def)
qed

lemma map_invoke_calls_prefix: "prefix (fst (map_invoke env hs a s)) (calls_with a hs)"
proof (induction hs arbitrary: s)
  case Nil
  then show ?case by (simp add: calls_with_def)
next
  case (Cons h hs)
  show ?case
  proof (cases "env h a s")
    case (Returned s1)
    have "prefix (fst (map_invoke env hs a s1)) (calls_with a hs)" by (rule Cons.IH)
    then show ?thesis using Returned by (simp add: calls_with_def case_prod_beta)
  next
    case (Threw x s1)
    then show ?thesis by (simp add: calls_with_def)
  qed
qed

lemma map_invoke_mono:
  assumes "\<forall>h \<in> set hs. \<forall>s. R (f s) (f (state_of (env h a s)))"
    and "\<And>x. R x x" and "\<And>x y z. R x y \<Longrightarrow> R y z \<Longrightarrow> R x z"
  shows "R (f s) (f (state_of (snd (map_invoke env hs a s))))"
  using assms(1)
proof (induction hs arbitrary: s)
  case Nil
  then show ?case by (simp add: assms(2))
next
  case (Cons h hs)
  have step: "R (f s) (f (state_of (env h a s)))" using Cons.prems by simp
  show ?case
  proof (cases "env h a s")
    case (Returned s1)
    have "R (f s1) (f (state_of (snd (map_invoke env hs a s1))))"
      using Cons.IH Cons.prems by simp
    moreover have "R (f s) (f s1)" using step Returned by simp
    ultimately have "R (f s) (f (state_of (snd (map_invoke env hs a s1))))"
      using assms(3) by blast
    then show ?thesis using Returned by (simp add: case_prod_beta)
  next
    case (Threw x s1)
    then show ?thesis using step by simp
  qed
qed


lemma apply_calls_append:
  "apply_calls env (xs @ ys) s =
     (case apply_calls env xs s of
        Threw x s1 \<Rightarrow> Threw x s1
      | Returned s1 \<Rightarrow> apply_calls env ys s1)"
  by (induction xs arbitrary: s) (simp_all split: outcome.splits)

lemma map_invoke_outcome:
  "snd (map_invoke env hs a s) = apply_calls env (fst (map_invoke env hs a s)) s"
proof (induction hs arbitrary: s)
  case Nil
  then show ?case by simp
next
  case (Cons h hs)
  show ?case
  proof (cases "env h a s")
    case (Returned s1)
    then show ?thesis using Cons.IH [of s1] by (simp add: case_prod_beta)
  next
    case (Threw x s1)
    then show ?thesis by simp
  qed
qed

lemma apply_calls_map_invoke:
  "apply_calls env (calls_with a hs) s = Returned s1 \<Longrightarrow>
     map_invoke env hs a s = (calls_with a hs, Returned s1)"
proof (induction hs arbitrary: s)
  case Nil
  then show ?case by (simp add: calls_with_def)
next
  case (Cons h hs)
  show ?case
  proof (cases "env h a s")
    case (Returned s2)
    then have "apply_calls env (calls_with a hs) s2 = Returned s1"
      using Cons.prems by (simp add: calls_with_def)
    then have "map_invoke env hs a s2 = (calls_with a hs, Returned s1)" by (rule Cons.IH)
    then show ?thesis using Returned by (simp add: calls_with_def)
  next
    case (Threw x s2)
    then show ?thesis using Cons.prems by (simp add: calls_with_def)
  qed
qed

lemma dispatch_returned_calls:
  "dispatch env (all s0 k) a s = (cs, Returned s') \<Longrightarrow> cs = calls_with a (handlers_of s0 k)"
  by (auto simp: dispatch_def handlers_of_def slice_def calls_with_def
      dest: map_invoke_returned_calls split: option.splits)

lemma dispatch_calls_prefix:
  "prefix (fst (dispatch env (all s0 k) a s)) (calls_with a (handlers_of s0 k))"
proof (cases "all s0 k")
  case None
  then show ?thesis by (simp add: dispatch_def)
next
  case (Some hs)
  then show ?thesis
    using map_invoke_calls_prefix [of env hs a s] by (simp add: dispatch_def slice_def handlers_of_def)
qed

lemma dispatch_mono:
  assumes "\<forall>h \<in> set (handlers_of s0 k). \<forall>s. R (f s) (f (state_of (env h a s)))"
    and "\<And>x. R x x" and "\<And>x y z. R x y \<Longrightarrow> R y z \<Longrightarrow> R x z"
  shows "R (f s) (f (state_of (snd (dispatch env (all s0 k) a s))))"
proof (cases "all s0 k")
  case None
  then show ?thesis by (simp add: dispatch_def assms(2))
next
  case (Some hs)
  then have "\<forall>h \<in> set hs. \<forall>s. R (f s) (f (state_of (env h a s)))"
    using assms(1) by (simp add: handlers_of_def)
  from map_invoke_mono [of hs R f env a, OF this assms(2) assms(3)]
  show ?thesis using Some by (simp add: dispatch_def slice_def)
qed

lemma dispatch_preserves:
  assumes "\<forall>h \<in> set (handlers_of s0 k). \<forall>s. f (state_of (env h a s)) = f s"
  shows "f (state_of (snd (dispatch env (all s0 k) a s))) = f s"
proof -
  have "(\<lambda>x y. x = y) (f s) (f (state_of (snd (dispatch env (all s0 k) a s))))"
    by (rule dispatch_mono) (use assms in auto)
  then show ?thesis by simp
qed


lemma dispatch_outcome:
  "snd (dispatch env ho a s) = apply_calls env (fst (dispatch env ho a s)) s"
  by (cases ho) (simp_all add: dispatch_def map_invoke_outcome)

lemma apply_calls_dispatch:
  assumes "apply_calls env (calls_with a (handlers_of s0 k)) s = Returned s1"
  shows "dispatch env (all s0 k) a s = (calls_with a (handlers_of s0 k), Returned s1)"
proof (cases "all s0 k")
  case None
  then show ?thesis using assms by (simp add: dispatch_def handlers_of_def calls_with_def)
next
  case (Some hs)
  then have "apply_calls env (calls_with a hs) s = Returned s1"
    using assms by (simp add: handlers_of_def)
  then have "map_invoke env hs a s = (calls_with a hs, Returned s1)"
    by (rule apply_calls_map_invoke)
  then show ?thesis using Some by (simp add: dispatch_def slice_def handlers_of_def)
qed

lemma emit_state:
  "state_of (snd (emit env t v s)) =
     (case snd (dispatch env (all s t) (Args1 v) s) of
        Threw x s1 \<Rightarrow> s1
      | Returned s1 \<Rightarrow> state_of (snd (dispatch env (all s1 wildcard) (Args2 t v) s1)))"
  by (simp add: emit_def split: prod.splits outcome.splits)

lemma emit_returned:
  assumes "emit env t v s = (cs, Returned s')"
  shows "\<exists>s1. dispatch env (all s t) (Args1 v) s =
                 (calls_with (Args1 v) (handlers_of s t), Returned s1) \<and>
              dispatch env (all s1 wildcard) (Args2 t v) s1 =
                 (calls_with (Args2 t v) (handlers_of s1 wildcard), Returned s') \<and>
              cs = calls_with (Args1 v) (handlers_of s t) @
                   calls_with (Args2 t v) (handlers_of s1 wildcard)"
proof -
  obtain cs1 r1 where d1: "dispatch env (all s t) (Args1 v) s = (cs1, r1)"
    by (cases "dispatch env (all s t) (Args1 v) s")
  from assms d1 obtain s1 where r1: "r1 = Returned s1"
    by (cases r1) (auto simp: emit_def)
  obtain cs2 r2 where d2: "dispatch env (all s1 wildcard) (Args2 t v) s1 = (cs2, r2)"
    by (cases "dispatch env (all s1 wildcard) (Args2 t v) s1")
  from assms d1 r1 d2 have e: "cs = cs1 @ cs2" "r2 = Returned s'"
    by (simp_all add: emit_def)
  have "cs1 = calls_with (Args1 v) (handlers_of s t)"
    using d1 r1 dispatch_returned_calls by blast
  moreover have "cs2 = calls_with (Args2 t v) (handlers_of s1 wildcard)"
    using d2 e(2) dispatch_returned_calls by blast
  ultimately show ?thesis using d1 r1 d2 e by blast
qed

lemma emit_outcome: "snd (emit env t v s) = apply_calls env (fst (emit env t v s)) s"
proof -
  obtain cs1 r1 where d1: "dispatch env (all s t) (Args1 v) s = (cs1, r1)"
    by (cases "dispatch env (all s t) (Args1 v) s")
  then have o1: "apply_calls env cs1 s = r1"
    using dispatch_outcome [of env "all s t" "Args1 v" s] by simp
  show ?thesis
  proof (cases r1)
    case (Threw x s1)
    then show ?thesis using d1 o1 by (simp add: emit_def)
  next
    case (Returned s1)
    obtain cs2 r2 where d2: "dispatch env (all s1 wildcard) (Args2 t v) s1 = (cs2, r2)"
      by (cases "dispatch env (all s1 wildcard) (Args2 t v) s1")
    then have "apply_calls env cs2 s1 = r2"
      using dispatch_outcome [of env "all s1 wildcard" "Args2 t v" s1] by simp
    then show ?thesis using d1 d2 o1 Returned by (simp add: emit_def apply_calls_append)
  qed
qed

lemma emit_mono:
  assumes "\<forall>h a s. R (f s) (f (state_of (env h a s)))"
    and "\<And>x. R x x" and "\<And>x y z. R x y \<Longrightarrow> R y z \<Longrightarrow> R x z"
  shows "R (f s) (f (state_of (snd (emit env t v s))))"
proof -
  have d1: "R (f s) (f (state_of (snd (dispatch env (all s t) (Args1 v) s))))"
    by (rule dispatch_mono) (use assms in auto)
  show ?thesis
  proof (cases "snd (dispatch env (all s t) (Args1 v) s)")
    case (Threw x s1)
    then show ?thesis using d1 by (simp add: emit_state)
  next
    case (Returned s1)
    have "R (f s1) (f (state_of (snd (dispatch env (all s1 wildcard) (Args2 t v) s1))))"
      by (rule dispatch_mono) (use assms in auto)
    moreover have "R (f s) (f s1)" using d1 Returned by simp
    ultimately have "R (f s) (f (state_of (snd (dispatch env (all s1 wildcard) (Args2 t v) s1))))"
      using assms(3) by blast
    then show ?thesis using Returned by (simp add: emit_state)
  qed
qed

subsection \<open>The registry under \<open>on\<close> and \<open>off\<close>\<close>

lemma dom_on: "dom (all (on t h s)) = insert t (dom (all s))"
  by (simp add: on_def split: option.splits)

lemma dom_off: "dom (all (off t ho s)) = dom (all s)"
  by (auto simp: off_def split: option.splits)

lemma all_on_other: "k \<noteq> t \<Longrightarrow> all (on t h s) k = all s k"
  by (simp add: on_def split: option.splits)

lemma all_off_other: "k \<noteq> t \<Longrightarrow> all (off t ho s) k = all s k"
  by (simp add: off_def split: option.splits)

lemma handlers_of_on_same: "handlers_of (on t h s) t = handlers_of s t @ [h]"
  by (simp add: on_def handlers_of_def split: option.splits)

lemma handlers_of_on_other: "k \<noteq> t \<Longrightarrow> handlers_of (on t h s) k = handlers_of s k"
  by (simp add: handlers_of_def all_on_other)

lemma handlers_of_off_other: "k \<noteq> t \<Longrightarrow> handlers_of (off t ho s) k = handlers_of s k"
  by (simp add: handlers_of_def all_off_other)

lemma subseq_drop_self: "subseq (drop n ys) ys"
  by auto

lemma subseq_take_drop:
  assumes "i \<le> j"
  shows "subseq (take i xs @ drop j xs) xs"
proof -
  have "drop (j - i) (drop i xs) = drop j xs" using assms by simp
  with subseq_drop_self [of "j - i" "drop i xs"] have "subseq (drop j xs) (drop i xs)"
    by (simp only:)
  then have "subseq (take i xs @ drop j xs) (take i xs @ drop i xs)"
    by (simp only: subseq_append')
  then show ?thesis by simp
qed

lemma handlers_of_off_same:
  "\<exists>i j. i \<le> j \<and> handlers_of (off t ho s) t = take i (handlers_of s t) @ drop j (handlers_of s t)"
proof (cases "all s t")
  case None
  then have "handlers_of (off t ho s) t = take 0 (handlers_of s t) @ drop 0 (handlers_of s t)"
    by (simp add: off_def handlers_of_def)
  then show ?thesis by blast
next
  case (Some hs)
  show ?thesis
  proof (cases ho)
    case None
    have "handlers_of (off t ho s) t = take 0 hs @ drop (length hs) hs"
      using Some None by (simp add: off_def handlers_of_def)
    then show ?thesis using Some by (auto simp: handlers_of_def)
  next
    case (Some h)
    from splice_take_drop [of hs "unsigned_shift_right (indexOf hs h) 0" 1]
    obtain i j where "i \<le> j"
      "array_splice hs (unsigned_shift_right (indexOf hs h) 0) 1 = take i hs @ drop j hs"
      by blast
    then show ?thesis using \<open>all s t = Some hs\<close> Some
      by (auto simp: off_def handlers_of_def)
  qed
qed

lemma off_keeps_order: "subseq (handlers_of (off t ho s) t) (handlers_of s t)"
  using handlers_of_off_same [of t ho s] by (auto simp: subseq_take_drop)

subsection \<open>Order of two handlers in a sequence\<close>

lemma subseq_pair_snoc: "g \<noteq> b \<Longrightarrow> subseq [a, b] (L @ [g]) \<Longrightarrow> subseq [a, b] L"
  by (induction L) (auto simp: subseq_Cons2_iff subseq_singleton_left split: if_splits)

lemma subseq_filter_iff:
  "\<forall>x \<in> set xs. P x \<Longrightarrow> subseq xs (filter P L) \<longleftrightarrow> subseq xs L"
  by (metis subseq_filter subseq_filter_left filter_id_conv subseq_order.trans)

lemma subseq_mem: "subseq xs ys \<Longrightarrow> x \<in> set xs \<Longrightarrow> x \<in> set ys"
  by (meson subseq_order.trans subseq_singleton_left)

lemma subseq_pair_split: "subseq [a, b] (pre @ a # mid @ b # post)"
  by (metis list_emb_append2 list_emb_code(1) subseq_Cons2_iff)

lemma pair_in_order:
  assumes "a \<in> set L" and "b \<in> set L" and "a \<noteq> b" and "\<not> subseq [b, a] L"
  shows "\<exists>pre mid post. L = pre @ a # mid @ b # post"
proof -
  from assms(1) obtain p q where L: "L = p @ a # q" by (auto dest: split_list)
  have "b \<notin> set p"
  proof
    assume "b \<in> set p"
    then obtain p1 p2 where "p = p1 @ b # p2" by (auto dest: split_list)
    then have "L = p1 @ b # p2 @ a # q" using L by simp
    then have "subseq [b, a] L" by (simp only: subseq_pair_split)
    with assms(4) show False by simp
  qed
  then have "b \<in> set q" using assms(2,3) L by auto
  then obtain q1 q2 where "q = q1 @ b # q2" by (auto dest: split_list)
  then have "L = p @ a # q1 @ b # q2" using L by simp
  then show ?thesis by blast
qed

subsection \<open>Runs of calls\<close>

lemma run_append: "run env (xs @ ys) s = run env ys (run env xs s)"
  by (induction xs arbitrary: s) simp_all

lemma run_keys_monotone:
  assumes "\<forall>h a s. dom (all s) \<subseteq> dom (all (state_of (env h a s)))"
  shows "dom (all s) \<subseteq> dom (all (run env ops s))"
proof (induction ops arbitrary: s)
  case Nil
  then show ?case by simp
next
  case (Cons c ops)
  have "dom (all s) \<subseteq> dom (all (exec env c s))"
  proof (cases c)
    case (On t h)
    then show ?thesis by (auto simp: dom_on)
  next
    case (Off t ho)
    then show ?thesis by (simp add: dom_off)
  next
    case (Emit t v)
    from assms have "dom (all s) \<subseteq> dom (all (state_of (snd (emit env t v s))))"
      by (rule emit_mono [where f = "\<lambda>s. dom (all s)" and R = "(\<subseteq>)"]) simp_all
    then show ?thesis using Emit by simp
  qed
  also have "\<dots> \<subseteq> dom (all (run env ops (exec env c s)))" by (rule Cons.IH)
  finally show ?case by simp
qed

lemma run_invariant:
  assumes down: "\<And>L L'. subseq (filter P L') (filter P L) \<Longrightarrow> Q L \<Longrightarrow> Q L'"
    and app: "\<And>L g. On t g \<in> set ops \<Longrightarrow> Q L \<Longrightarrow> Q (L @ [g])"
    and handlers: "(\<forall>c \<in> set ops. \<not> is_emit c) \<or>
      (\<forall>h a u. subseq (filter P (handlers_of (state_of (env h a u)) t))
                 (filter P (handlers_of u t)))"
    and init: "Q (handlers_of s t)"
  shows "Q (handlers_of (run env ops s) t)"
  using app handlers init
proof (induction ops arbitrary: s)
  case Nil
  then show ?case by simp
next
  case (Cons c ops)
  have step: "Q (handlers_of (exec env c s) t)"
  proof (cases c)
    case (On t' g)
    show ?thesis
    proof (cases "t' = t")
      case True
      then have "On t g \<in> set (c # ops)" using On by simp
      then have "Q (handlers_of s t @ [g])" using Cons.prems(3) by (rule Cons.prems(1))
      then show ?thesis using On True by (simp add: handlers_of_on_same)
    next
      case False
      then show ?thesis using On Cons.prems(3) by (simp add: handlers_of_on_other)
    qed
  next
    case (Off t' ho)
    show ?thesis
    proof (cases "t' = t")
      case True
      have "subseq (filter P (handlers_of (off t ho s) t)) (filter P (handlers_of s t))"
        by (intro subseq_filter off_keeps_order)
      then have "Q (handlers_of (off t ho s) t)" using Cons.prems(3) by (rule down)
      then show ?thesis using Off True by simp
    next
      case False
      then show ?thesis using Off Cons.prems(3) by (simp add: handlers_of_off_other)
    qed
  next
    case (Emit t' v)
    then have "\<forall>h a u. subseq (filter P (handlers_of (state_of (env h a u)) t))
                 (filter P (handlers_of u t))"
      using Cons.prems(2) by (elim disjE) simp_all
    then have "(\<lambda>x y. subseq y x) (filter P (handlers_of s t))
        (filter P (handlers_of (state_of (snd (emit env t' v s))) t))"
      by (intro emit_mono [where f = "\<lambda>u. filter P (handlers_of u t)"
            and R = "\<lambda>x y. subseq y x"]) (auto intro: subseq_order.trans)
    then have "Q (handlers_of (state_of (snd (emit env t' v s))) t)"
      using Cons.prems(3) by (intro down [of "handlers_of (state_of (snd (emit env t' v s))) t"
            "handlers_of s t"])
    then show ?thesis using Emit by simp
  qed
  have app': "\<And>L g. On t g \<in> set ops \<Longrightarrow> Q L \<Longrightarrow> Q (L @ [g])"
    using Cons.prems(1) by simp
  have handlers': "(\<forall>c \<in> set ops. \<not> is_emit c) \<or>
      (\<forall>h a u. subseq (filter P (handlers_of (state_of (env h a u)) t))
                 (filter P (handlers_of u t)))"
    using Cons.prems(2) by (elim disjE) simp_all
  have "Q (handlers_of (run env ops (exec env c s)) t)"
    using app' handlers' step by (rule Cons.IH)
  then show ?case by simp
qed

subsection \<open>The example handlers\<close>

lemma counting_env_registry: "all (state_of (counting_env h a s)) = all s"
  by (simp add: counting_env_def)

lemma example_env_keys: "dom (all s) \<subseteq> dom (all (state_of (example_env h a s)))"
  by (auto simp: example_env_def dom_on dom_off)

lemma example_env_keeps_entries:
  assumes "Ref 1 \<noteq> h1" and "Ref 1 \<noteq> h2"
  shows "subseq (filter (\<lambda>x. x = h1 \<or> x = h2)
            (handlers_of (state_of (example_env h a u)) (Str ''t'')))
         (filter (\<lambda>x. x = h1 \<or> x = h2) (handlers_of u (Str ''t'')))"
proof -
  have fresh: "Ref (Suc 0) \<noteq> h1" "Ref (Suc 0) \<noteq> h2" using assms by simp_all
  have other: "\<And>g. handlers_of (on wildcard g u) (Str ''t'') = handlers_of u (Str ''t'')"
    by (rule handlers_of_on_other) (simp add: wildcard_def)
  have count: "\<And>w. handlers_of (u\<lparr>outside := w\<rparr>) (Str ''t'') = handlers_of u (Str ''t'')"
    by (simp add: handlers_of_def)
  have removed: "\<And>g. subseq (filter (\<lambda>x. x = h1 \<or> x = h2)
            (handlers_of (off (Str ''t'') (Some g) u) (Str ''t'')))
         (filter (\<lambda>x. x = h1 \<or> x = h2) (handlers_of u (Str ''t'')))"
    by (intro subseq_filter off_keeps_order)
  have added: "\<And>g. g \<noteq> h1 \<Longrightarrow> g \<noteq> h2 \<Longrightarrow>
      filter (\<lambda>x. x = h1 \<or> x = h2) (handlers_of (on (Str ''t'') g u) (Str ''t'')) =
      filter (\<lambda>x. x = h1 \<or> x = h2) (handlers_of u (Str ''t''))"
    by (simp add: handlers_of_on_same)
  show ?thesis
    unfolding example_env_def by (simp add: other count removed added fresh)
qed

section \<open>The claims\<close>

subsection \<open>C1: the handlers called by one emit\<close>

text \<open>
  Claim C1. Let \<open>t\<close> be an event key, not the wildcard key, and let the handlers
  stored under \<open>t\<close> change the registry only under the key \<open>t\<close>, as a handler
  that calls \<^verbatim>\<open>on(t, _)\<close> or \<^verbatim>\<open>off(t, _)\<close>, also on itself, does. When
  \<^verbatim>\<open>emit(t, v)\<close> returns, the calls it has made are exactly the handlers stored
  under \<open>t\<close> when it began, each with \<^verbatim>\<open>(v)\<close>, followed by the handlers stored
  under the wildcard key when it began, each with \<^verbatim>\<open>(t, v)\<close>: what the handlers
  did to the sequence of \<open>t\<close> meanwhile plays no part. The state \<^verbatim>\<open>emit\<close> leaves
  is the state that these calls, made one after another, leave: nothing the
  handlers did is undone. The next \<^verbatim>\<open>emit(t, _)\<close> therefore calls the sequence
  stored under \<open>t\<close> as the handlers left it.
\<close>

theorem emit_snapshot_isolation:
  assumes "t \<noteq> wildcard"
    and "\<forall>h \<in> set (handlers_of s t).
           \<forall>u k. k \<noteq> t \<longrightarrow> all (state_of (env h (Args1 v) u)) k = all u k"
    and "emit env t v s = (cs, Returned s')"
  shows "cs = calls_with (Args1 v) (handlers_of s t) @
              calls_with (Args2 t v) (handlers_of s wildcard) \<and>
         apply_calls env cs s = Returned s' \<and>
         (\<forall>v2 cs2 s2. emit env t v2 s' = (cs2, Returned s2) \<longrightarrow>
            take (length (handlers_of s' t)) cs2 =
              calls_with (Args1 v2) (handlers_of s' t))"
proof (intro conjI allI impI)
  from emit_returned [OF assms(3)] obtain s1 where
    d1: "dispatch env (all s t) (Args1 v) s =
           (calls_with (Args1 v) (handlers_of s t), Returned s1)"
    and cs: "cs = calls_with (Args1 v) (handlers_of s t) @
                  calls_with (Args2 t v) (handlers_of s1 wildcard)"
    by blast
  have keep: "\<forall>h \<in> set (handlers_of s t).
      \<forall>u. all (state_of (env h (Args1 v) u)) wildcard = all u wildcard"
    using assms(1,2) by simp
  have "all (state_of (snd (dispatch env (all s t) (Args1 v) s))) wildcard = all s wildcard"
    by (rule dispatch_preserves [where f = "\<lambda>u. all u wildcard"]) (use keep in simp)
  then have "handlers_of s1 wildcard = handlers_of s wildcard"
    using d1 by (simp add: handlers_of_def)
  then show "cs = calls_with (Args1 v) (handlers_of s t) @
              calls_with (Args2 t v) (handlers_of s wildcard)"
    using cs by simp
next
  show "apply_calls env cs s = Returned s'"
    using emit_outcome [of env t v s] assms(3) by simp
next
  fix v2 cs2 s2
  assume "emit env t v2 s' = (cs2, Returned s2)"
  from emit_returned [OF this] obtain u1 where
    "dispatch env (all s' t) (Args1 v2) s' =
       (calls_with (Args1 v2) (handlers_of s' t), Returned u1)"
    "cs2 = calls_with (Args1 v2) (handlers_of s' t) @
           calls_with (Args2 t v2) (handlers_of u1 wildcard)" by blast
  then show "take (length (handlers_of s' t)) cs2 = calls_with (Args1 v2) (handlers_of s' t)"
    by (simp add: calls_with_def)
qed

text \<open>
  The theorem at \<open>self_removing_bus\<close>: the first \<^verbatim>\<open>emit\<close> calls the three handlers
  stored at its start, although the first removes itself and the third adds a
  handler; it leaves the changed sequence, and the second \<^verbatim>\<open>emit\<close> calls that.
\<close>

theorem emit_snapshot_isolation_witness:
  "fst (emit example_env (Str ''t'') 7 self_removing_bus) =
     [(Ref 3, Args1 7), (Ref 1, Args1 7), (Ref 4, Args1 7), (Ref 1, Args2 (Str ''t'') 7)] \<and>
   handlers_of (state_of (snd (emit example_env (Str ''t'') 7 self_removing_bus))) (Str ''t'') =
     [Ref 1, Ref 4, Ref 1] \<and>
   outside (state_of (snd (emit example_env (Str ''t'') 7 self_removing_bus))) = 2 \<and>
   take 3 (fst (emit example_env (Str ''t'') 8
           (state_of (snd (emit example_env (Str ''t'') 7 self_removing_bus))))) =
     [(Ref 1, Args1 8), (Ref 4, Args1 8), (Ref 1, Args1 8)]"
proof -
  define cs where "cs = fst (emit example_env (Str ''t'') 7 self_removing_bus)"
  define s' where "s' = state_of (snd (emit example_env (Str ''t'') 7 self_removing_bus))"
  define cs2 where "cs2 = fst (emit example_env (Str ''t'') 8 s')"
  define s2 where "s2 = state_of (snd (emit example_env (Str ''t'') 8 s'))"
  have removed: "\<And>x xs. array_splice (x # xs) 0 1 = (xs :: handler list)"
    using splice_one_at [of "[]"] by simp
  have stored: "handlers_of self_removing_bus (Str ''t'') = [Ref 3, Ref 1, Ref 4]"
    "handlers_of self_removing_bus wildcard = [Ref 1]"
    by (simp_all add: handlers_of_def self_removing_bus_def mitt_def wildcard_def)
  have ret: "snd (emit example_env (Str ''t'') 7 self_removing_bus) = Returned s'"
    unfolding s'_def
    by (simp add: emit_def dispatch_def slice_def self_removing_bus_def mitt_def
        wildcard_def example_env_def on_def off_def removed indexOf_def
        unsigned_shift_right_def)
  then have first: "emit example_env (Str ''t'') 7 self_removing_bus = (cs, Returned s')"
    by (simp add: cs_def prod_eq_iff)
  have "t_only": "\<forall>h \<in> set (handlers_of self_removing_bus (Str ''t'')).
      \<forall>u k. k \<noteq> Str ''t'' \<longrightarrow>
        all (state_of (example_env h (Args1 7) u)) k = all u k"
    by (simp add: stored example_env_def all_on_other all_off_other)
  have concrete: "Str ''t'' \<noteq> wildcard" by (simp add: wildcard_def)
  note inst = emit_snapshot_isolation [OF concrete t_only first]
  from inst have calls: "cs = [(Ref 3, Args1 7), (Ref 1, Args1 7), (Ref 4, Args1 7),
      (Ref 1, Args2 (Str ''t'') 7)]"
    by (simp add: stored calls_with_def)
  from inst have "apply_calls example_env cs self_removing_bus = Returned s'" by blast
  then have left: "all s' (Str ''t'') = Some [Ref 1, Ref 4, Ref 1]" "outside s' = 2"
    "all s' (Str ''*'') = Some [Ref 1]"
    by (auto simp: calls example_env_def on_def off_def removed indexOf_def
        unsigned_shift_right_def self_removing_bus_def mitt_def wildcard_def)
  have hs': "handlers_of s' (Str ''t'') = [Ref 1, Ref 4, Ref 1]"
    by (simp add: handlers_of_def left)
  have "snd (emit example_env (Str ''t'') 8 s') = Returned s2"
    unfolding s2_def
    by (simp add: emit_def dispatch_def slice_def left example_env_def on_def wildcard_def)
  then have second: "emit example_env (Str ''t'') 8 s' = (cs2, Returned s2)"
    by (simp add: cs2_def prod_eq_iff)
  from inst second
  have "take (length (handlers_of s' (Str ''t''))) cs2 =
      calls_with (Args1 8) (handlers_of s' (Str ''t''))"
    by blast
  then show ?thesis using calls left(2)
    unfolding cs_def [symmetric] s'_def [symmetric] cs2_def [symmetric]
    by (simp add: hs' calls_with_def numeral_3_eq_3)
qed

subsection \<open>C2: wildcard handlers run after the type-matched ones\<close>

text \<open>
  Claim C2. Let \<open>X\<close> be the handlers stored under \<open>t\<close> when \<^verbatim>\<open>emit(t, v)\<close> begins,
  each called with \<^verbatim>\<open>(v)\<close>, and \<open>Y\<close> the handlers stored under the wildcard key in
  the state that running the calls of \<open>X\<close> leaves, each called with \<^verbatim>\<open>(t, v)\<close>. The
  calls made by \<^verbatim>\<open>emit(t, v)\<close> are an initial part of \<open>X @ Y\<close>, and the whole of it
  when \<^verbatim>\<open>emit\<close> returns; and the outcome of \<^verbatim>\<open>emit\<close> is the outcome of running
  exactly these calls in this order, each on the state the previous one left. So
  every handler of \<open>t\<close> has run before the first wildcard handler runs. The order in
  which the handlers were registered under the two keys plays no part: the
  statement holds in every state.
\<close>

theorem emit_wildcard_after_type_matched:
  "prefix (fst (emit env t v s))
     (calls_with (Args1 v) (handlers_of s t) @
      calls_with (Args2 t v)
        (handlers_of
           (state_of (apply_calls env (calls_with (Args1 v) (handlers_of s t)) s))
           wildcard)) \<and>
   snd (emit env t v s) = apply_calls env (fst (emit env t v s)) s \<and>
   (snd (emit env t v s) = Returned s' \<longrightarrow>
      fst (emit env t v s) =
        calls_with (Args1 v) (handlers_of s t) @
        calls_with (Args2 t v)
          (handlers_of
             (state_of (apply_calls env (calls_with (Args1 v) (handlers_of s t)) s))
             wildcard))"
proof (intro conjI impI)
  obtain cs1 r1 where d1: "dispatch env (all s t) (Args1 v) s = (cs1, r1)"
    by (cases "dispatch env (all s t) (Args1 v) s")
  have p1: "prefix cs1 (calls_with (Args1 v) (handlers_of s t))"
    using dispatch_calls_prefix [of env s t "Args1 v" s] d1 by simp
  have o1: "apply_calls env cs1 s = r1"
    using dispatch_outcome [of env "all s t" "Args1 v" s] d1 by simp
  show "prefix (fst (emit env t v s))
     (calls_with (Args1 v) (handlers_of s t) @
      calls_with (Args2 t v)
        (handlers_of
           (state_of (apply_calls env (calls_with (Args1 v) (handlers_of s t)) s))
           wildcard))"
  proof (cases r1)
    case (Threw x s1)
    then have "fst (emit env t v s) = cs1" using d1 by (simp add: emit_def)
    then show ?thesis using p1 by (simp add: prefix_prefix)
  next
    case (Returned s1)
    then have full: "cs1 = calls_with (Args1 v) (handlers_of s t)"
      using d1 dispatch_returned_calls by blast
    then have after: "state_of (apply_calls env (calls_with (Args1 v) (handlers_of s t)) s) = s1"
      using o1 Returned by simp
    have "prefix (fst (dispatch env (all s1 wildcard) (Args2 t v) s1))
        (calls_with (Args2 t v) (handlers_of s1 wildcard))"
      by (rule dispatch_calls_prefix)
    then show ?thesis using d1 Returned full after by (simp add: emit_def case_prod_beta)
  qed
next
  show "snd (emit env t v s) = apply_calls env (fst (emit env t v s)) s"
    by (rule emit_outcome)
next
  assume "snd (emit env t v s) = Returned s'"
  then have "emit env t v s = (fst (emit env t v s), Returned s')"
    by (simp add: prod_eq_iff)
  from emit_returned [OF this] obtain s1 where
    d1: "dispatch env (all s t) (Args1 v) s =
           (calls_with (Args1 v) (handlers_of s t), Returned s1)"
    and cs: "fst (emit env t v s) = calls_with (Args1 v) (handlers_of s t) @
                  calls_with (Args2 t v) (handlers_of s1 wildcard)"
    by blast
  have "apply_calls env (calls_with (Args1 v) (handlers_of s t)) s = Returned s1"
    using dispatch_outcome [of env "all s t" "Args1 v" s] d1 by simp
  then show "fst (emit env t v s) =
        calls_with (Args1 v) (handlers_of s t) @
        calls_with (Args2 t v)
          (handlers_of
             (state_of (apply_calls env (calls_with (Args1 v) (handlers_of s t)) s))
             wildcard)"
    using cs by simp
qed

text \<open>
  The theorem for one handler under \<^verbatim>\<open>'t'\<close> and one wildcard handler, registered in
  either order on a fresh emitter, each handler writing its call to a log when it
  runs: both times the log has the handler of \<^verbatim>\<open>'t'\<close> first.
\<close>

theorem emit_wildcard_after_type_matched_witness:
  "emit logging_env (Str ''t'') 7
     (on wildcard (Ref 9) (on (Str ''t'') (Ref 1) (mitt None []))) =
     ([(Ref 1, Args1 7), (Ref 9, Args2 (Str ''t'') 7)],
      Returned ((on wildcard (Ref 9) (on (Str ''t'') (Ref 1) (mitt None [])))
        \<lparr>outside := [(Ref 1, Args1 7), (Ref 9, Args2 (Str ''t'') 7)]\<rparr>)) \<and>
   emit logging_env (Str ''t'') 7
     (on (Str ''t'') (Ref 1) (on wildcard (Ref 9) (mitt None []))) =
     ([(Ref 1, Args1 7), (Ref 9, Args2 (Str ''t'') 7)],
      Returned ((on (Str ''t'') (Ref 1) (on wildcard (Ref 9) (mitt None [])))
        \<lparr>outside := [(Ref 1, Args1 7), (Ref 9, Args2 (Str ''t'') 7)]\<rparr>))"
proof -
  have both: "emit logging_env (Str ''t'') 7 a =
      ([(Ref 1, Args1 7), (Ref 9, Args2 (Str ''t'') 7)],
       Returned (a\<lparr>outside := [(Ref 1, Args1 7), (Ref 9, Args2 (Str ''t'') 7)]\<rparr>))"
    if reg: "all a = [Str ''t'' \<mapsto> [Ref 1], wildcard \<mapsto> [Ref 9]]" and log: "outside a = []"
    for a :: "(handler \<times> nat arglist) list emitter"
  proof -
    have ha: "handlers_of a (Str ''t'') = [Ref 1]"
      by (simp add: handlers_of_def reg wildcard_def)
    have step: "apply_calls logging_env (calls_with (Args1 7) (handlers_of a (Str ''t''))) a =
        Returned (a\<lparr>outside := [(Ref 1, Args1 7)]\<rparr>)"
      by (simp add: ha calls_with_def logging_env_def log)
    have hw: "handlers_of (state_of (apply_calls logging_env
        (calls_with (Args1 7) (handlers_of a (Str ''t''))) a)) wildcard = [Ref 9]"
      by (simp only: step) (simp add: handlers_of_def reg)
    have ret: "snd (emit logging_env (Str ''t'') 7 a) =
        Returned (state_of (snd (emit logging_env (Str ''t'') 7 a)))"
      by (simp add: emit_def dispatch_def slice_def reg wildcard_def logging_env_def)
    note inst = emit_wildcard_after_type_matched [of logging_env "Str ''t''" 7 a]
    from inst [THEN conjunct2, THEN conjunct2, THEN mp, OF ret]
    have calls: "fst (emit logging_env (Str ''t'') 7 a) =
        [(Ref 1, Args1 7), (Ref 9, Args2 (Str ''t'') 7)]"
      by (simp only: hw) (simp add: ha calls_with_def)
    from inst [THEN conjunct2, THEN conjunct1]
    have "snd (emit logging_env (Str ''t'') 7 a) =
        apply_calls logging_env [(Ref 1, Args1 7), (Ref 9, Args2 (Str ''t'') 7)] a"
      by (simp only: calls)
    then have "snd (emit logging_env (Str ''t'') 7 a) =
        Returned (a\<lparr>outside := [(Ref 1, Args1 7), (Ref 9, Args2 (Str ''t'') 7)]\<rparr>)"
      by (simp add: logging_env_def log)
    then show ?thesis using calls by (simp add: prod_eq_iff)
  qed
  have "emit logging_env (Str ''t'') 7
     (on wildcard (Ref 9) (on (Str ''t'') (Ref 1) (mitt None []))) =
     ([(Ref 1, Args1 7), (Ref 9, Args2 (Str ''t'') 7)],
      Returned ((on wildcard (Ref 9) (on (Str ''t'') (Ref 1) (mitt None [])))
        \<lparr>outside := [(Ref 1, Args1 7), (Ref 9, Args2 (Str ''t'') 7)]\<rparr>))"
    by (rule both) (simp_all add: on_def mitt_def wildcard_def)
  moreover have "emit logging_env (Str ''t'') 7
     (on (Str ''t'') (Ref 1) (on wildcard (Ref 9) (mitt None []))) =
     ([(Ref 1, Args1 7), (Ref 9, Args2 (Str ''t'') 7)],
      Returned ((on (Str ''t'') (Ref 1) (on wildcard (Ref 9) (mitt None [])))
        \<lparr>outside := [(Ref 1, Args1 7), (Ref 9, Args2 (Str ''t'') 7)]\<rparr>))"
    by (rule both) (simp_all add: on_def mitt_def wildcard_def fun_upd_twist)
  ultimately show ?thesis by (rule conjI)
qed

subsection \<open>C3: dispatch in registration order\<close>

text \<open>
  Claim C3 says that whenever \<^verbatim>\<open>on(t, h1)\<close> was called before \<^verbatim>\<open>on(t, h2)\<close> and
  both handlers are still registered, \<^verbatim>\<open>emit(t, v)\<close> calls \<open>h1\<close> before \<open>h2\<close>,
  whatever other calls were made in between. A handler may be registered under one
  key several times, and \<^verbatim>\<open>off(t, h)\<close> removes its first occurrence. After
  \<^verbatim>\<open>on(t, h1); on(t, h2); on(t, h1); off(t, h1)\<close> the entry made by the first call
  is gone and the entry left for \<open>h1\<close> is the one made after \<^verbatim>\<open>on(t, h2)\<close>: both
  handlers have been registered at every moment since their first registration,
  the sequence is \<open>[h2, h1]\<close>, and \<^verbatim>\<open>emit\<close> calls \<open>h2\<close> first.
\<close>

theorem registration_order_counterexample:
  "handlers_of (run counting_env [On (Str ''t'') (Ref 1)] (mitt None 0)) (Str ''t'') = [Ref 1] \<and>
   handlers_of (run counting_env [On (Str ''t'') (Ref 1), On (Str ''t'') (Ref 2)] (mitt None 0))
     (Str ''t'') = [Ref 1, Ref 2] \<and>
   handlers_of (run counting_env [On (Str ''t'') (Ref 1), On (Str ''t'') (Ref 2),
     On (Str ''t'') (Ref 1)] (mitt None 0)) (Str ''t'') = [Ref 1, Ref 2, Ref 1] \<and>
   handlers_of (run counting_env [On (Str ''t'') (Ref 1), On (Str ''t'') (Ref 2),
     On (Str ''t'') (Ref 1), Off (Str ''t'') (Some (Ref 1))] (mitt None 0)) (Str ''t'') =
       [Ref 2, Ref 1] \<and>
   fst (emit counting_env (Str ''t'') 7
     (run counting_env [On (Str ''t'') (Ref 1), On (Str ''t'') (Ref 2),
        On (Str ''t'') (Ref 1), Off (Str ''t'') (Some (Ref 1))] (mitt None 0))) =
     [(Ref 2, Args1 7), (Ref 1, Args1 7)]"
proof -
  have removed: "\<And>x xs. array_splice (x # xs) 0 1 = (xs :: handler list)"
    using splice_one_at [of "[]"] by simp
  show ?thesis
    by (simp add: handlers_of_def mitt_def on_def off_def indexOf_def unsigned_shift_right_def
        removed emit_def dispatch_def slice_def counting_env_def wildcard_def)
qed

text \<open>
  Claim C3, amended. Let \<open>h1\<close> and \<open>h2\<close> be different handlers, let \<open>h2\<close> not be
  registered under \<open>t\<close>, and let \<^verbatim>\<open>on(t, h1)\<close> be called before \<^verbatim>\<open>on(t, h2)\<close>, with
  no \<^verbatim>\<open>on(t, h2)\<close> in between and no further \<^verbatim>\<open>on(t, h1)\<close> afterwards. The other
  calls made in between and afterwards are any \<^verbatim>\<open>on\<close> and \<^verbatim>\<open>off\<close> calls, and
  \<^verbatim>\<open>emit\<close> calls too, provided no handler itself adds an entry of \<open>h1\<close> or \<open>h2\<close>
  to the sequence of \<open>t\<close> or reorders these entries; handlers may remove
  themselves or others and register other handlers. If both handlers are still in
  the sequence of \<open>t\<close>, then in it \<open>h1\<close> comes before \<open>h2\<close> and no entry of
  \<open>h2\<close> comes before an entry of \<open>h1\<close>; and an \<^verbatim>\<open>emit(t, v)\<close> that returns has run
  the handlers of that sequence in its order, each with \<^verbatim>\<open>(v)\<close>, before any
  wildcard handler.
\<close>

theorem registration_order_dispatch:
  assumes "h1 \<noteq> h2"
    and "h2 \<notin> set (handlers_of s t)"
    and "\<forall>c \<in> set ops1. c \<noteq> On t h2"
    and "\<forall>c \<in> set ops2. c \<noteq> On t h1"
    and "(\<forall>c \<in> set (ops1 @ ops2). \<not> is_emit c) \<or>
         (\<forall>h a u. subseq
            (filter (\<lambda>x. x = h1 \<or> x = h2) (handlers_of (state_of (env h a u)) t))
            (filter (\<lambda>x. x = h1 \<or> x = h2) (handlers_of u t)))"
    and "s' = run env (On t h1 # ops1 @ On t h2 # ops2) s"
    and "h1 \<in> set (handlers_of s' t)" and "h2 \<in> set (handlers_of s' t)"
    and "emit env t v s' = (cs, Returned s'')"
  shows "(\<exists>pre mid post. handlers_of s' t = pre @ h1 # mid @ h2 # post) \<and>
         (\<forall>pre mid post. handlers_of s' t \<noteq> pre @ h2 # mid @ h1 # post) \<and>
         (\<exists>s1. apply_calls env (calls_with (Args1 v) (handlers_of s' t)) s' = Returned s1 \<and>
               cs = calls_with (Args1 v) (handlers_of s' t) @
                    calls_with (Args2 t v) (handlers_of s1 wildcard)) \<and>
         apply_calls env cs s' = Returned s''"
proof -
  let ?P = "\<lambda>x. x = h1 \<or> x = h2"
  define b where "b = run env (On t h1 # ops1) s"
  define c where "c = on t h2 b"
  have s': "s' = run env ops2 c"
    using assms(6) by (simp add: run_append b_def c_def)
  have e1: "(\<forall>c \<in> set (On t h1 # ops1). \<not> is_emit c) \<or>
         (\<forall>h a u. subseq (filter ?P (handlers_of (state_of (env h a u)) t))
            (filter ?P (handlers_of u t)))"
    using assms(5) by (elim disjE) simp_all
  have e2: "(\<forall>c \<in> set ops2. \<not> is_emit c) \<or>
         (\<forall>h a u. subseq (filter ?P (handlers_of (state_of (env h a u)) t))
            (filter ?P (handlers_of u t)))"
    using assms(5) by (elim disjE) simp_all
  have free: "h2 \<notin> set (handlers_of b t)"
    unfolding b_def
  proof (rule run_invariant [where P = ?P and Q = "\<lambda>L. h2 \<notin> set L", OF _ _ e1 assms(2)])
    fix L L' :: "handler list"
    assume sub: "subseq (filter ?P L') (filter ?P L)" and "h2 \<notin> set L"
    show "h2 \<notin> set L'"
    proof
      assume "h2 \<in> set L'"
      then have "h2 \<in> set (filter ?P L')" by simp
      with sub have "h2 \<in> set (filter ?P L)" by (rule subseq_mem)
      with \<open>h2 \<notin> set L\<close> show False by simp
    qed
  next
    fix L g
    assume "On t g \<in> set (On t h1 # ops1)" and "h2 \<notin> set L"
    then show "h2 \<notin> set (L @ [g])" using assms(1,3) by auto
  qed
  have "\<not> subseq [h2, h1] (handlers_of b t @ [h2])"
  proof
    assume "subseq [h2, h1] (handlers_of b t @ [h2])"
    with assms(1) [symmetric] have "subseq [h2, h1] (handlers_of b t)"
      by (rule subseq_pair_snoc)
    then have "h2 \<in> set (handlers_of b t)" by (rule subseq_mem) simp
    with free show False by simp
  qed
  then have init: "\<not> subseq [h2, h1] (handlers_of c t)"
    by (simp add: c_def handlers_of_on_same)
  have ordered: "\<not> subseq [h2, h1] (handlers_of s' t)"
    unfolding s'
  proof (rule run_invariant [where P = ?P and Q = "\<lambda>L. \<not> subseq [h2, h1] L", OF _ _ e2 init])
    fix L L' :: "handler list"
    assume sub: "subseq (filter ?P L') (filter ?P L)" and no: "\<not> subseq [h2, h1] L"
    show "\<not> subseq [h2, h1] L'"
    proof
      assume "subseq [h2, h1] L'"
      then have "subseq [h2, h1] (filter ?P L')" by (simp add: subseq_filter_iff)
      then have "subseq [h2, h1] (filter ?P L)" using sub by (rule subseq_order.trans)
      then have "subseq [h2, h1] L" by (simp add: subseq_filter_iff)
      with no show False by simp
    qed
  next
    fix L g
    assume "On t g \<in> set ops2" and no: "\<not> subseq [h2, h1] L"
    then have diff: "g \<noteq> h1" using assms(4) by auto
    show "\<not> subseq [h2, h1] (L @ [g])"
    proof
      assume "subseq [h2, h1] (L @ [g])"
      with diff have "subseq [h2, h1] L" by (rule subseq_pair_snoc)
      with no show False by simp
    qed
  qed
  have first: "\<exists>pre mid post. handlers_of s' t = pre @ h1 # mid @ h2 # post"
    using assms(7) assms(8) assms(1) ordered by (rule pair_in_order)
  have never: "\<forall>pre mid post. handlers_of s' t \<noteq> pre @ h2 # mid @ h1 # post"
  proof (intro allI notI)
    fix pre mid post
    assume "handlers_of s' t = pre @ h2 # mid @ h1 # post"
    then have "subseq [h2, h1] (handlers_of s' t)" by (simp only: subseq_pair_split)
    with ordered show False by simp
  qed
  from emit_returned [OF assms(9)] obtain s1 where
    d: "dispatch env (all s' t) (Args1 v) s' =
       (calls_with (Args1 v) (handlers_of s' t), Returned s1)"
    and e: "cs = calls_with (Args1 v) (handlers_of s' t) @
          calls_with (Args2 t v) (handlers_of s1 wildcard)"
    by blast
  have ran: "apply_calls env (calls_with (Args1 v) (handlers_of s' t)) s' = Returned s1"
    using dispatch_outcome [of env "all s' t" "Args1 v" s'] d by simp
  have whole: "apply_calls env cs s' = Returned s''"
    using emit_outcome [of env t v s'] assms(9) by simp
  have "\<exists>s1. apply_calls env (calls_with (Args1 v) (handlers_of s' t)) s' = Returned s1 \<and>
               cs = calls_with (Args1 v) (handlers_of s' t) @
                    calls_with (Args2 t v) (handlers_of s1 wildcard)"
    using ran e by (intro exI [of _ s1] conjI)
  then show ?thesis using first never whole by (intro conjI)
qed

text \<open>
  The theorem on a fresh emitter with the example handlers, for \<open>Ref 4\<close> registered
  before \<open>Ref 5\<close>. In between, \<open>Ref 3\<close> is registered and an \<^verbatim>\<open>emit\<close> makes it
  remove itself, while \<open>Ref 4\<close> registers \<open>Ref 1\<close> each time it runs.
\<close>

theorem registration_order_dispatch_witness:
  "handlers_of (run example_env
      (On (Str ''t'') (Ref 4) # [On (Str ''t'') (Ref 3), Emit (Str ''t'') 3] @
       On (Str ''t'') (Ref 5) # [Off (Str ''u'') None, On wildcard (Ref 9), Emit (Str ''t'') 4])
      (mitt None 0)) (Str ''t'') = [Ref 4, Ref 1, Ref 5, Ref 1] \<and>
   fst (emit example_env (Str ''t'') 7 (run example_env
      (On (Str ''t'') (Ref 4) # [On (Str ''t'') (Ref 3), Emit (Str ''t'') 3] @
       On (Str ''t'') (Ref 5) # [Off (Str ''u'') None, On wildcard (Ref 9), Emit (Str ''t'') 4])
      (mitt None 0))) =
     [(Ref 4, Args1 7), (Ref 1, Args1 7), (Ref 5, Args1 7), (Ref 1, Args1 7),
      (Ref 9, Args2 (Str ''t'') 7)] \<and>
   outside (state_of (snd (emit example_env (Str ''t'') 7 (run example_env
      (On (Str ''t'') (Ref 4) # [On (Str ''t'') (Ref 3), Emit (Str ''t'') 3] @
       On (Str ''t'') (Ref 5) # [Off (Str ''u'') None, On wildcard (Ref 9), Emit (Str ''t'') 4])
      (mitt None 0))))) = 3"
proof -
  define ops1 :: "nat op list" where
    "ops1 = [On (Str ''t'') (Ref 3), Emit (Str ''t'') 3]"
  define ops2 :: "nat op list" where
    "ops2 = [Off (Str ''u'') None, On wildcard (Ref 9), Emit (Str ''t'') 4]"
  define w :: "nat emitter" where
    "w = run example_env (On (Str ''t'') (Ref 4) # ops1 @ On (Str ''t'') (Ref 5) # ops2)
           (mitt None 0)"
  have removed: "\<And>x y xs. array_splice (x # y # xs) 1 1 = (x # xs :: handler list)"
    using splice_one_at [of "[x]" for x] by simp
  have regt: "all w (Str ''t'') = Some [Ref 4, Ref 1, Ref 5, Ref 1]"
    and regw: "all w (Str ''*'') = Some [Ref 9]"
    and out: "outside w = 1"
    by (simp_all add: w_def ops1_def ops2_def mitt_def on_def off_def indexOf_def
        unsigned_shift_right_def removed emit_def dispatch_def slice_def example_env_def
        wildcard_def)
  have hs: "handlers_of w (Str ''t'') = [Ref 4, Ref 1, Ref 5, Ref 1]"
    by (simp add: handlers_of_def regt)
  define cs where "cs = fst (emit example_env (Str ''t'') 7 w)"
  define w' where "w' = state_of (snd (emit example_env (Str ''t'') 7 w))"
  have "snd (emit example_env (Str ''t'') 7 w) = Returned w'"
    unfolding w'_def
    by (simp add: emit_def dispatch_def slice_def regt regw example_env_def on_def wildcard_def)
  then have ret: "emit example_env (Str ''t'') 7 w = (cs, Returned w')"
    by (simp add: cs_def prod_eq_iff)
  have whole: "cs = [(Ref 4, Args1 7), (Ref 1, Args1 7), (Ref 5, Args1 7), (Ref 1, Args1 7),
      (Ref 9, Args2 (Str ''t'') 7)]"
    unfolding cs_def
    by (simp add: emit_def dispatch_def slice_def regt regw example_env_def on_def wildcard_def)
  have fresh: "Ref 5 \<notin> set (handlers_of (mitt None (0::nat)) (Str ''t''))"
    by (simp add: handlers_of_def mitt_def)
  have before: "\<forall>c \<in> set ops1. c \<noteq> On (Str ''t'') (Ref 5)"
    by (simp add: ops1_def)
  have after: "\<forall>c \<in> set ops2. c \<noteq> On (Str ''t'') (Ref 4)"
    by (simp add: ops2_def wildcard_def)
  have quiet: "(\<forall>c \<in> set (ops1 @ ops2). \<not> is_emit c) \<or>
      (\<forall>h a u. subseq
         (filter (\<lambda>x. x = Ref 4 \<or> x = Ref 5)
            (handlers_of (state_of (example_env h a u)) (Str ''t'')))
         (filter (\<lambda>x. x = Ref 4 \<or> x = Ref 5) (handlers_of u (Str ''t''))))"
    by (intro disjI2 allI example_env_keeps_entries) simp_all
  have present: "Ref 4 \<in> set (handlers_of w (Str ''t''))" "Ref 5 \<in> set (handlers_of w (Str ''t''))"
    by (simp_all add: hs)
  have "Ref 4 \<noteq> Ref 5" by simp
  from registration_order_dispatch [OF this fresh before after quiet w_def present ret]
  have ran: "apply_calls example_env cs w = Returned w'" by blast
  have "apply_calls example_env cs w = Returned (w\<lparr>all := (all w)(Str ''t'' \<mapsto>
      [Ref 4, Ref 1, Ref 5, Ref 1, Ref 1]), outside := 3\<rparr>)"
    by (simp add: whole example_env_def on_def regt out)
  then have "outside w' = 3" using ran by simp
  then show ?thesis using hs whole
    by (simp add: cs_def w'_def w_def ops1_def ops2_def)
qed

subsection \<open>C4: a throwing handler\<close>

text \<open>
  Claim C4. \<^verbatim>\<open>emit\<close> has no \<^verbatim>\<open>try\<close>. Let the sequence under \<open>t\<close> be
  \<open>pre @ h # post\<close>, let the handlers of \<open>pre\<close>, called with \<^verbatim>\<open>(v)\<close> one after
  another, return and leave the state \<open>s1\<close>, and let \<open>h\<close> called on \<open>s1\<close> throw
  \<open>x\<close> leaving \<open>s2\<close>. Then \<^verbatim>\<open>emit(t, v)\<close> throws \<open>x\<close>; the calls made are those
  of \<open>pre\<close> and of \<open>h\<close> and no other (none of \<open>post\<close>, no wildcard handler); and
  the state is \<open>s2\<close>, that is, everything the handlers of \<open>pre\<close> did to the
  registry and outside it is still there, followed by what \<open>h\<close> did before it
  threw. Likewise when all type-matched handlers return, leaving \<open>u1\<close>, and the
  handler \<open>w\<close> in the wildcard sequence \<open>wpre @ w # wpost\<close> of \<open>u1\<close> throws: the
  calls made are the type-matched ones, those of \<open>wpre\<close> and that of \<open>w\<close>.
\<close>

theorem emit_propagates_handler_exception:
  "(all s t = Some (pre @ h # post) \<and>
    apply_calls env (calls_with (Args1 v) pre) s = Returned s1 \<and>
    env h (Args1 v) s1 = Threw x s2 \<longrightarrow>
      emit env t v s = (calls_with (Args1 v) (pre @ [h]), Threw x s2)) \<and>
   (apply_calls env (calls_with (Args1 v) (handlers_of s t)) s = Returned u1 \<and>
    all u1 wildcard = Some (wpre @ w # wpost) \<and>
    apply_calls env (calls_with (Args2 t v) wpre) u1 = Returned u2 \<and>
    env w (Args2 t v) u2 = Threw y u3 \<longrightarrow>
      emit env t v s =
        (calls_with (Args1 v) (handlers_of s t) @ calls_with (Args2 t v) (wpre @ [w]),
         Threw y u3))"
proof (intro conjI impI)
  assume a: "all s t = Some (pre @ h # post) \<and>
    apply_calls env (calls_with (Args1 v) pre) s = Returned s1 \<and>
    env h (Args1 v) s1 = Threw x s2"
  then have "map_invoke env pre (Args1 v) s = (calls_with (Args1 v) pre, Returned s1)"
    by (intro apply_calls_map_invoke) simp
  then have "map_invoke env (pre @ h # post) (Args1 v) s =
      (calls_with (Args1 v) (pre @ [h]), Threw x s2)"
    using a by (intro map_invoke_throw_at) auto
  then show "emit env t v s = (calls_with (Args1 v) (pre @ [h]), Threw x s2)"
    using a by (simp add: emit_def dispatch_def slice_def)
next
  assume b: "apply_calls env (calls_with (Args1 v) (handlers_of s t)) s = Returned u1 \<and>
    all u1 wildcard = Some (wpre @ w # wpost) \<and>
    apply_calls env (calls_with (Args2 t v) wpre) u1 = Returned u2 \<and>
    env w (Args2 t v) u2 = Threw y u3"
  then have d1: "dispatch env (all s t) (Args1 v) s =
      (calls_with (Args1 v) (handlers_of s t), Returned u1)"
    by (intro apply_calls_dispatch) simp
  from b have "map_invoke env wpre (Args2 t v) u1 = (calls_with (Args2 t v) wpre, Returned u2)"
    by (intro apply_calls_map_invoke) simp
  then have "map_invoke env (wpre @ w # wpost) (Args2 t v) u1 =
      (calls_with (Args2 t v) (wpre @ [w]), Threw y u3)"
    using b by (intro map_invoke_throw_at) auto
  then show "emit env t v s =
        (calls_with (Args1 v) (handlers_of s t) @ calls_with (Args2 t v) (wpre @ [w]),
         Threw y u3)"
    using b d1 by (simp add: emit_def dispatch_def slice_def)
qed

text \<open>
  The theorem at \<open>example_bus\<close>, where the third handler under \<^verbatim>\<open>'t'\<close> throws. The
  first handler has registered \<open>Ref 1\<close> under the wildcard key and the second has
  counted once: both effects are in the state that \<^verbatim>\<open>emit\<close> leaves. The fourth
  handler and the wildcard handlers are not called. And with the thrower added under
  the wildcard key, for an event with no handlers of its own.
\<close>

theorem emit_propagates_handler_exception_witness:
  "emit example_env (Str ''t'') 7 example_bus =
     ([(Ref 0, Args1 7), (Ref 1, Args1 7), (Ref 2, Args1 7)],
      Threw ''boom''
        \<lparr>all = [Str ''t'' \<mapsto> [Ref 0, Ref 1, Ref 2, Ref 1], wildcard \<mapsto> [Ref 1, Ref 1]],
         outside = 1\<rparr>) \<and>
   emit example_env (Str ''u'') 7 (on wildcard (Ref 2) example_bus) =
     ([(Ref 1, Args2 (Str ''u'') 7), (Ref 2, Args2 (Str ''u'') 7)],
      Threw ''boom''
        \<lparr>all = [Str ''t'' \<mapsto> [Ref 0, Ref 1, Ref 2, Ref 1], wildcard \<mapsto> [Ref 1, Ref 2]],
         outside = 1\<rparr>)"
proof -
  define s1 :: "nat emitter" where
    "s1 = \<lparr>all = [Str ''t'' \<mapsto> [Ref 0, Ref 1, Ref 2, Ref 1], wildcard \<mapsto> [Ref 1, Ref 1]],
            outside = 1\<rparr>"
  have stored: "all example_bus (Str ''t'') = Some ([Ref 0, Ref 1] @ Ref 2 # [Ref 1])"
    by (simp add: example_bus_def mitt_def wildcard_def)
  have ran: "apply_calls example_env (calls_with (Args1 7) [Ref 0, Ref 1]) example_bus =
      Returned s1"
    by (simp add: s1_def calls_with_def example_env_def on_def example_bus_def mitt_def)
  have thrown: "example_env (Ref 2) (Args1 7) s1 = Threw ''boom'' s1"
    by (simp add: example_env_def)
  from emit_propagates_handler_exception [of example_bus "Str ''t''" "[Ref 0, Ref 1]" "Ref 2"
      "[Ref 1]" example_env 7 s1 "''boom''" s1] stored ran thrown
  have a: "emit example_env (Str ''t'') 7 example_bus =
      (calls_with (Args1 7) ([Ref 0, Ref 1] @ [Ref 2]), Threw ''boom'' s1)" by blast
  define b0 where "b0 = on wildcard (Ref 2) example_bus"
  define u2 :: "nat emitter" where
    "u2 = \<lparr>all = [Str ''t'' \<mapsto> [Ref 0, Ref 1, Ref 2, Ref 1], wildcard \<mapsto> [Ref 1, Ref 2]],
            outside = 1\<rparr>"
  have b0: "b0 = \<lparr>all = [Str ''t'' \<mapsto> [Ref 0, Ref 1, Ref 2, Ref 1], wildcard \<mapsto> [Ref 1, Ref 2]],
            outside = 0\<rparr>"
    by (simp add: b0_def on_def example_bus_def mitt_def)
  have empty: "handlers_of b0 (Str ''u'') = []"
    by (simp add: handlers_of_def b0 wildcard_def)
  have none: "apply_calls example_env (calls_with (Args1 7) (handlers_of b0 (Str ''u''))) b0 =
      Returned b0"
    by (simp add: empty calls_with_def)
  have wstored: "all b0 wildcard = Some ([Ref 1] @ Ref 2 # [])"
    by (simp add: b0)
  have wran: "apply_calls example_env (calls_with (Args2 (Str ''u'') 7) [Ref 1]) b0 =
      Returned u2"
    by (simp add: u2_def b0 calls_with_def example_env_def)
  have wthrown: "example_env (Ref 2) (Args2 (Str ''u'') 7) u2 = Threw ''boom'' u2"
    by (simp add: example_env_def)
  from emit_propagates_handler_exception [of b0 "Str ''u''" _ _ _ example_env 7 _ _ _
      b0 "[Ref 1]" "Ref 2" "[]" u2 "''boom''" u2] none wstored wran wthrown
  have b: "emit example_env (Str ''u'') 7 b0 =
      (calls_with (Args1 7) (handlers_of b0 (Str ''u'')) @
       calls_with (Args2 (Str ''u'') 7) ([Ref 1] @ [Ref 2]), Threw ''boom'' u2)" by blast
  show ?thesis using a b empty unfolding s1_def u2_def b0_def
    by (simp add: calls_with_def)
qed

subsection \<open>C5: removal of one handler\<close>

text \<open>
  Claim C5. For a key \<open>t\<close> that has a handler sequence \<open>hs\<close>, \<^verbatim>\<open>off(t, h)\<close>
  leaves the emitter as it is when \<open>h\<close> does not occur in \<open>hs\<close>, and otherwise
  removes the first occurrence of \<open>h\<close> and nothing else: if \<open>hs = pre @ h # post\<close>
  with \<open>h\<close> not in \<open>pre\<close>, the new sequence is \<open>pre @ post\<close>, so later
  occurrences of \<open>h\<close> in \<open>post\<close> stay. The length bound is that of every
  JavaScript array (at most \<open>2^32 - 1\<close> elements); it is what makes the index
  \<^verbatim>\<open>-1 >>> 0 = 4294967295\<close> lie at or beyond the end of the array.
\<close>

theorem off_removes_first_occurrence:
  assumes "all s t = Some hs" and "length hs \<le> 4294967295"
  shows "(h \<notin> set hs \<longrightarrow> off t (Some h) s = s) \<and>
         (\<forall>pre post. hs = pre @ h # post \<and> h \<notin> set pre \<longrightarrow>
            off t (Some h) s = s\<lparr>all := (all s)(t \<mapsto> pre @ post)\<rparr>)"
proof (intro conjI impI allI)
  assume absent: "h \<notin> set hs"
  have "array_splice hs (unsigned_shift_right (indexOf hs h) 0) 1 = hs"
    using assms(2) by (simp add: indexOf_absent [OF absent] unsigned_shift_right_minus_one
        splice_beyond_end)
  then have "off t (Some h) s = s\<lparr>all := (all s)(t \<mapsto> hs)\<rparr>"
    using assms(1) by (simp add: off_def)
  also have "(all s)(t \<mapsto> hs) = all s" using assms(1) by (rule map_upd_triv)
  finally show "off t (Some h) s = s" by simp
next
  fix pre post
  assume split: "hs = pre @ h # post \<and> h \<notin> set pre"
  then have idx: "indexOf hs h = int (length pre)" by (simp add: indexOf_first)
  have "int (length pre) < 4294967296" using assms(2) split by simp
  then have "unsigned_shift_right (indexOf hs h) 0 = int (length pre)"
    using idx by (simp add: unsigned_shift_right_index)
  then have "array_splice hs (unsigned_shift_right (indexOf hs h) 0) 1 = pre @ post"
    using split by (simp add: splice_one_at)
  then show "off t (Some h) s = s\<lparr>all := (all s)(t \<mapsto> pre @ post)\<rparr>"
    using assms(1) by (simp add: off_def)
qed

text \<open>The theorem at \<open>example_bus\<close>: removing the absent \<open>Ref 5\<close>, and \<open>Ref 1\<close>, stored twice.\<close>

theorem off_removes_first_occurrence_witness:
  "all example_bus (Str ''t'') = Some [Ref 0, Ref 1, Ref 2, Ref 1] \<and>
   length [Ref 0, Ref 1, Ref 2, Ref 1] \<le> 4294967295 \<and>
   Ref 5 \<notin> set [Ref 0, Ref 1, Ref 2, Ref 1] \<and>
   off (Str ''t'') (Some (Ref 5)) example_bus = example_bus \<and>
   [Ref 0, Ref 1, Ref 2, Ref 1] = [Ref 0] @ Ref 1 # [Ref 2, Ref 1] \<and>
   Ref 1 \<notin> set [Ref 0] \<and>
   off (Str ''t'') (Some (Ref 1)) example_bus =
     example_bus\<lparr>all := (all example_bus)(Str ''t'' \<mapsto> [Ref 0, Ref 2, Ref 1])\<rparr>"
proof -
  have stored: "all example_bus (Str ''t'') = Some [Ref 0, Ref 1, Ref 2, Ref 1]"
    by (simp add: example_bus_def mitt_def wildcard_def)
  have bound: "length [Ref 0, Ref 1, Ref 2, Ref 1] \<le> 4294967295" by simp
  have absent: "Ref 5 \<notin> set [Ref 0, Ref 1, Ref 2, Ref 1]" by simp
  have present: "[Ref 0, Ref 1, Ref 2, Ref 1] = [Ref 0] @ Ref 1 # [Ref 2, Ref 1] \<and>
      Ref 1 \<notin> set [Ref 0]" by simp
  from off_removes_first_occurrence [OF stored bound, of "Ref 5"] absent
  have a: "off (Str ''t'') (Some (Ref 5)) example_bus = example_bus" by blast
  from off_removes_first_occurrence [OF stored bound, of "Ref 1"] present
  have b: "off (Str ''t'') (Some (Ref 1)) example_bus =
     example_bus\<lparr>all := (all example_bus)(Str ''t'' \<mapsto> [Ref 0] @ [Ref 2, Ref 1])\<rparr>" by blast
  show ?thesis using stored absent a b by simp
qed

subsection \<open>C6: duplicate registrations\<close>



subsection \<open>C7: clearing a key\<close>

text \<open>
  Claim C7. \<^verbatim>\<open>off(t)\<close> without a handler: when \<open>t\<close> has a sequence, it is replaced
  by the empty sequence, \<open>t\<close> stays a key of the map and the key set is unchanged;
  when \<open>t\<close> has no sequence, the emitter is unchanged and \<open>t\<close> is not created.
  \<open>off\<close> is a total function: there is no error result.
\<close>

theorem off_without_handler:
  "(all s t = Some hs \<longrightarrow>
      off t None s = s\<lparr>all := (all s)(t \<mapsto> [])\<rparr> \<and> all (off t None s) t = Some [] \<and>
      t \<in> dom (all (off t None s)) \<and> dom (all (off t None s)) = dom (all s)) \<and>
   (all s t = None \<longrightarrow> off t None s = s \<and> t \<notin> dom (all (off t None s)))"
  by (auto simp: off_def)

text \<open>The theorem at \<open>example_bus\<close>, for the stored key \<^verbatim>\<open>'t'\<close> and the absent key \<^verbatim>\<open>'u'\<close>.\<close>

theorem off_without_handler_witness:
  "all example_bus (Str ''t'') = Some [Ref 0, Ref 1, Ref 2, Ref 1] \<and>
   all (off (Str ''t'') None example_bus) (Str ''t'') = Some [] \<and>
   Str ''t'' \<in> dom (all (off (Str ''t'') None example_bus)) \<and>
   all example_bus (Str ''u'') = None \<and>
   off (Str ''u'') None example_bus = example_bus"
proof -
  have stored: "all example_bus (Str ''t'') = Some [Ref 0, Ref 1, Ref 2, Ref 1]"
    by (simp add: example_bus_def mitt_def wildcard_def)
  have missing: "all example_bus (Str ''u'') = None"
    by (simp add: example_bus_def mitt_def wildcard_def)
  from off_without_handler [of example_bus "Str ''t''" "[Ref 0, Ref 1, Ref 2, Ref 1]"] stored
  have a: "all (off (Str ''t'') None example_bus) (Str ''t'') = Some [] \<and>
      Str ''t'' \<in> dom (all (off (Str ''t'') None example_bus))" by blast
  from off_without_handler [of example_bus "Str ''u''"] missing
  have b: "off (Str ''u'') None example_bus = example_bus" by blast
  show ?thesis using stored missing a b by simp
qed

subsection \<open>C8: emitting the wildcard key\<close>



subsection \<open>C9: keys are never removed\<close>

text \<open>
  Claim C9. \<^verbatim>\<open>on(t, h)\<close> adds the key \<open>t\<close> and removes none; \<^verbatim>\<open>off\<close> leaves the
  key set as it is, with or without a handler argument; \<^verbatim>\<open>emit\<close> has no write of
  its own, so it leaves the key set unchanged when the handlers it calls do, and
  non-decreasing when the handlers never remove a key (as handlers that act on the
  emitter through \<^verbatim>\<open>on\<close> and \<^verbatim>\<open>off\<close> do). Hence over any sequence of
  \<^verbatim>\<open>on\<close>, \<^verbatim>\<open>off\<close> and \<^verbatim>\<open>emit\<close> calls the key set never loses a key.
\<close>

theorem registry_keys_never_removed:
  "dom (all (on t h s)) = insert t (dom (all s)) \<and>
   dom (all (off t ho s)) = dom (all s) \<and>
   ((\<forall>h a s. dom (all (state_of (env h a s))) = dom (all s)) \<longrightarrow>
      dom (all (state_of (snd (emit env t v s)))) = dom (all s)) \<and>
   ((\<forall>h a s. dom (all s) \<subseteq> dom (all (state_of (env h a s)))) \<longrightarrow>
      dom (all s) \<subseteq> dom (all (state_of (snd (emit env t v s)))) \<and>
      dom (all s) \<subseteq> dom (all (run env ops s)))"
proof (intro conjI impI)
  show "dom (all (on t h s)) = insert t (dom (all s))" by (rule dom_on)
  show "dom (all (off t ho s)) = dom (all s)" by (rule dom_off)
next
  assume "\<forall>h a s. dom (all (state_of (env h a s))) = dom (all s)"
  then have "\<forall>h a s. dom (all s) = dom (all (state_of (env h a s)))" by simp
  then have "dom (all s) = dom (all (state_of (snd (emit env t v s))))"
    by (rule emit_mono [where f = "\<lambda>s. dom (all s)" and R = "(=)"]) simp_all
  then show "dom (all (state_of (snd (emit env t v s)))) = dom (all s)" by simp
next
  assume mono: "\<forall>h a s. dom (all s) \<subseteq> dom (all (state_of (env h a s)))"
  from mono show "dom (all s) \<subseteq> dom (all (state_of (snd (emit env t v s))))"
    by (rule emit_mono [where f = "\<lambda>s. dom (all s)" and R = "(\<subseteq>)"]) simp_all
  show "dom (all s) \<subseteq> dom (all (run env ops s))"
    using mono by (rule run_keys_monotone)
qed

text \<open>
  The theorem for a run from \<open>example_bus\<close> whose handlers call \<^verbatim>\<open>on\<close> and
  \<^verbatim>\<open>off\<close>, and for one \<^verbatim>\<open>emit\<close> with handlers that only count.
\<close>

theorem registry_keys_never_removed_witness:
  "dom (all example_bus) \<subseteq>
     dom (all (run example_env
       [Off (Str ''t'') None, Emit (Str ''u'') 7, On (Str ''u'') (Ref 0), Emit (Str ''u'') 8,
        Off wildcard (Some (Ref 1)), Emit (Str ''t'') 9] example_bus)) \<and>
   dom (all (state_of (snd (emit counting_env (Str ''t'') 7 example_bus)))) =
     dom (all example_bus)"
proof -
  have a: "\<forall>h a s. dom (all s) \<subseteq> dom (all (state_of (example_env h a s)))"
    by (simp add: example_env_keys)
  have b: "\<forall>h a s. dom (all (state_of (counting_env h a s))) = dom (all s)"
    by (simp add: counting_env_registry)
  have "dom (all example_bus) \<subseteq>
     dom (all (run example_env
       [Off (Str ''t'') None, Emit (Str ''u'') 7, On (Str ''u'') (Ref 0), Emit (Str ''u'') 8,
        Off wildcard (Some (Ref 1)), Emit (Str ''t'') 9] example_bus))"
    using registry_keys_never_removed [where env = example_env and s = example_bus] a
    by (rule_tac conjunct2 [OF conjunct2 [OF conjunct2 [OF conjunct2], THEN mp]]) assumption+
  moreover have "dom (all (state_of (snd (emit counting_env (Str ''t'') 7 example_bus)))) =
     dom (all example_bus)"
    using registry_keys_never_removed [where env = counting_env and s = example_bus] b
    by (rule_tac conjunct1 [OF conjunct2 [OF conjunct2], THEN mp]) assumption+
  ultimately show ?thesis by (rule conjI)
qed

subsection \<open>C10: emit does not write the registry\<close>

text \<open>
  Claim C10. If none of the handlers stored under \<open>t\<close> and under the wildcard key
  changes the handler map when called, the map after \<^verbatim>\<open>emit(t, v)\<close> is the map
  before it: same keys, same sequence under every key. This holds whether
  \<^verbatim>\<open>emit\<close> returns or a handler throws. \<^verbatim>\<open>emit\<close> itself only reads the map and
  iterates over copies.
\<close>

theorem emit_leaves_registry_unchanged:
  assumes "\<forall>h \<in> set (handlers_of s t) \<union> set (handlers_of s wildcard).
             \<forall>a s'. all (state_of (env h a s')) = all s'"
  shows "all (state_of (snd (emit env t v s))) = all s"
proof -
  have d1: "all (state_of (snd (dispatch env (all s t) (Args1 v) s))) = all s"
    by (rule dispatch_preserves) (use assms in simp)
  show ?thesis
  proof (cases "snd (dispatch env (all s t) (Args1 v) s)")
    case (Threw x s1)
    then show ?thesis using d1 by (simp add: emit_state)
  next
    case (Returned s1)
    then have same: "all s1 = all s" using d1 by simp
    then have "handlers_of s1 wildcard = handlers_of s wildcard"
      by (simp add: handlers_of_def)
    then have "\<forall>h \<in> set (handlers_of s1 wildcard).
                 \<forall>s'. all (state_of (env h (Args2 t v) s')) = all s'"
      using assms by simp
    then have "all (state_of (snd (dispatch env (all s1 wildcard) (Args2 t v) s1))) = all s1"
      by (rule dispatch_preserves)
    then show ?thesis using Returned same by (simp add: emit_state)
  qed
qed

text \<open>
  The theorem at \<open>example_bus\<close> with handlers that only count their calls: five
  calls are made and the map is unchanged.
\<close>

theorem emit_leaves_registry_unchanged_witness:
  "all (state_of (snd (emit counting_env (Str ''t'') 7 example_bus))) = all example_bus \<and>
   outside (state_of (snd (emit counting_env (Str ''t'') 7 example_bus))) = 5"
proof -
  have "all (state_of (snd (emit counting_env (Str ''t'') 7 example_bus))) = all example_bus"
    by (rule emit_leaves_registry_unchanged) (simp add: counting_env_registry)
  moreover have "outside (state_of (snd (emit counting_env (Str ''t'') 7 example_bus))) = 5"
    by (simp add: emit_def dispatch_def slice_def example_bus_def mitt_def wildcard_def
        counting_env_def)
  ultimately show ?thesis by simp
qed

end
